theory Spec2Isabelle
  imports Main "HOL-Library.Word" "HOL-Library.Finite_Map" "HOL-Library.Multiset"
begin

section \<open>The batch cutter: \<open>blockcutter.Scheduler\<close>\<close>

text \<open>
  Go's \<open>int\<close> sequence counters are unbounded integers here: they start at 0 and grow by
  one per released envelope, so they stay far below \<open>2^63\<close>. The byte accumulator and
  the two limits are \<open>uint32\<close> in the source and 32-bit words here, so that additions
  wrap and comparisons are unsigned. The conversion \<open>uint32(x)\<close> of an \<open>int\<close> is
  \<open>word_of_int x\<close>.

  An envelope pointer stored in the map is a value of the type variable \<open>'e\<close>; a batch is a
  slice of pointers, and the element read from an absent key is Go's nil pointer: \<open>None\<close>.

  The fields \<open>metrics\<close>, \<open>channelID\<close> and \<open>pendingBatchStartTime\<close> only feed the
  fill-duration histogram; wall-clock time is outside this model and they are left out.
\<close>

type_synonym uint32 = "32 word"

datatype error = Panic

record BatchSize =
  MaxMessageCount :: uint32
  AbsoluteMaxBytes :: uint32
  PreferredMaxBytes :: uint32

record 'e Scheduler =
  envelopes :: "(int, 'e) fmap"
  startSequence :: int
  nextSequence :: int
  batchSize :: uint32

type_synonym 'e batch = "'e option list"

definition NewScheduler :: "'e Scheduler" where
  "NewScheduler =
     \<lparr>envelopes = fmempty, startSequence = 0, nextSequence = 0, batchSize = 0\<rparr>"

text \<open>The loop of \<open>Cut\<close>: \<open>for i := start; i < end; i++\<close>, appending the map's entry at
  \<open>i\<close> to the batch and deleting the key.\<close>

function cut_loop ::
  "int \<Rightarrow> int \<Rightarrow> (int, 'e) fmap \<Rightarrow> 'e batch \<Rightarrow> (int, 'e) fmap \<times> 'e batch" where
  "cut_loop i endSeq env batch =
     (if i < endSeq
      then cut_loop (i + 1) endSeq (fmdrop i env) (batch @ [fmlookup env i])
      else (env, batch))"
  by pat_completeness auto
termination
  by (relation "measure (\<lambda>(i, endSeq, env, batch). nat (endSeq - i))") auto

declare cut_loop.simps [simp del]

definition Cut :: "'e Scheduler \<Rightarrow> int \<Rightarrow> error + ('e Scheduler \<times> 'e batch)" where
  "Cut s endSeq =
     (let start = startSequence s in
      if start \<ge> endSeq then Inl Panic
      else
        let (env, batch) = cut_loop start endSeq (envelopes s) []
        in Inr (s\<lparr>envelopes := env, startSequence := endSeq\<rparr>, batch))"

text \<open>\<open>batch := s.Cut(end); messageBatches = append(messageBatches, batch); s.batchSize = 0\<close>,
  the three statements that follow each other wherever the loop of \<open>Schedule\<close> cuts
  up to the current envelope.\<close>

definition cut_reset ::
  "'e Scheduler \<times> 'e batch list \<Rightarrow> error + ('e Scheduler \<times> 'e batch list)" where
  "cut_reset st =
     (let (s, messageBatches) = st in
      case Cut s (nextSequence s) of
        Inl e \<Rightarrow> Inl e
      | Inr (s', batch) \<Rightarrow> Inr (s'\<lparr>batchSize := 0\<rparr>, messageBatches @ [batch]))"

text \<open>Lines 53 to 88: the byte rule applied to one released envelope. The size is that of
  \<open>msg\<close>, the argument of the call, as the source has it.\<close>

definition byte_rule ::
  "('e \<Rightarrow> uint32) \<Rightarrow> 'e \<Rightarrow> BatchSize \<Rightarrow> 'e Scheduler \<times> 'e batch list
     \<Rightarrow> error + ('e Scheduler \<times> 'e batch list)" where
  "byte_rule messageSizeBytes msg bs st =
     (let (s, messageBatches) = st;
          messageSize = messageSizeBytes msg;
          newBatchSize = batchSize s + messageSize
      in
      if newBatchSize < PreferredMaxBytes bs then
        Inr (s\<lparr>batchSize := newBatchSize\<rparr>, messageBatches)
      else if newBatchSize > PreferredMaxBytes bs then
        (if nextSequence s - startSequence s = 1 then
           cut_reset (s, messageBatches)
         else
           (case Cut s (nextSequence s - 1) of
              Inl e \<Rightarrow> Inl e
            | Inr (s1, batch1) \<Rightarrow>
                if messageSize \<ge> PreferredMaxBytes bs then
                  cut_reset (s1, messageBatches @ [batch1])
                else
                  Inr (s1\<lparr>batchSize := messageSize\<rparr>, messageBatches @ [batch1])))
      else
        cut_reset (s, messageBatches))"

text \<open>Lines 90 to 94: the count rule.\<close>

definition count_rule ::
  "BatchSize \<Rightarrow> 'e Scheduler \<times> 'e batch list \<Rightarrow> error + ('e Scheduler \<times> 'e batch list)" where
  "count_rule bs st =
     (let (s, messageBatches) = st in
      if (word_of_int (nextSequence s - startSequence s) :: uint32) \<ge> MaxMessageCount bs
      then cut_reset (s, messageBatches)
      else Inr (s, messageBatches))"

text \<open>One pass through the body of the \<open>for\<close> loop, after the existence test.\<close>

definition iteration ::
  "('e \<Rightarrow> uint32) \<Rightarrow> 'e \<Rightarrow> BatchSize \<Rightarrow> 'e Scheduler \<times> 'e batch list
     \<Rightarrow> error + ('e Scheduler \<times> 'e batch list)" where
  "iteration messageSizeBytes msg bs st =
     (let (s, messageBatches) = st;
          s1 = s\<lparr>nextSequence := nextSequence s + 1\<rparr>
      in
      case byte_rule messageSizeBytes msg bs (s1, messageBatches) of
        Inl e \<Rightarrow> Inl e
      | Inr st2 \<Rightarrow> count_rule bs st2)"

text \<open>Closed forms of \<open>Cut\<close>: the state and the batch of a call that does not panic.\<close>

definition cut_state :: "'e Scheduler \<Rightarrow> int \<Rightarrow> 'e Scheduler" where
  "cut_state s endSeq =
     s\<lparr>envelopes := fmdrop_set {startSequence s..<endSeq} (envelopes s),
       startSequence := endSeq\<rparr>"

definition cut_batch :: "'e Scheduler \<Rightarrow> int \<Rightarrow> 'e batch" where
  "cut_batch s endSeq = map (fmlookup (envelopes s)) [startSequence s..endSeq - 1]"

lemma cut_loop_eq:
  "cut_loop i endSeq env batch =
     (fmdrop_set {i..<endSeq} env, batch @ map (fmlookup env) [i..endSeq - 1])"
proof (induction i endSeq env batch rule: cut_loop.induct)
  case (1 i endSeq env batch)
  show ?case
  proof (cases "i < endSeq")
    case True
    have set_eq: "insert i {i + 1..<endSeq} = {i..<endSeq}"
      using True by auto
    have list_eq: "[i..endSeq - 1] = i # [i + 1..endSeq - 1]"
      using True by (simp add: upto_rec1)
    have look: "map (fmlookup (fmdrop i env)) [i + 1..endSeq - 1]
                = map (fmlookup env) [i + 1..endSeq - 1]"
      by (rule map_cong) auto
    have "cut_loop i endSeq env batch
          = cut_loop (i + 1) endSeq (fmdrop i env) (batch @ [fmlookup env i])"
      using True by (subst cut_loop.simps) simp
    also have "\<dots> = (fmdrop_set {i + 1..<endSeq} (fmdrop i env),
                      (batch @ [fmlookup env i])
                        @ map (fmlookup (fmdrop i env)) [i + 1..endSeq - 1])"
      using 1 True by simp
    also have "\<dots> = (fmdrop_set {i..<endSeq} env,
                      batch @ map (fmlookup env) [i..endSeq - 1])"
      by (simp add: set_eq list_eq look)
    finally show ?thesis .
  next
    case False
    then show ?thesis by (subst cut_loop.simps) simp
  qed
qed

lemma Cut_eq:
  "Cut s endSeq =
     (if startSequence s \<ge> endSeq then Inl Panic
      else Inr (cut_state s endSeq, cut_batch s endSeq))"
  by (simp add: Cut_def Let_def cut_loop_eq cut_state_def cut_batch_def)

lemma cut_reset_eq:
  "cut_reset (s, mb) =
     (if startSequence s \<ge> nextSequence s then Inl Panic
      else Inr ((cut_state s (nextSequence s))\<lparr>batchSize := 0\<rparr>,
                mb @ [cut_batch s (nextSequence s)]))"
  by (simp add: cut_reset_def Cut_eq)

lemma cut_state_simps [simp]:
  "nextSequence (cut_state s e) = nextSequence s"
  "startSequence (cut_state s e) = e"
  "batchSize (cut_state s e) = batchSize s"
  "envelopes (cut_state s e) = fmdrop_set {startSequence s..<e} (envelopes s)"
  by (simp_all add: cut_state_def)

lemma byte_rule_shape:
  assumes "byte_rule M msg bs (s, mb) = Inr (s', mb')"
  shows "nextSequence s' = nextSequence s \<and> fmdom' (envelopes s') \<subseteq> fmdom' (envelopes s)"
  using assms
  by (auto simp: byte_rule_def Let_def Cut_eq cut_reset_eq split: if_splits)

lemma count_rule_shape:
  assumes "count_rule bs (s, mb) = Inr (s', mb')"
  shows "nextSequence s' = nextSequence s \<and> fmdom' (envelopes s') \<subseteq> fmdom' (envelopes s)"
  using assms
  by (auto simp: count_rule_def cut_reset_eq split: if_splits)

lemma iteration_shape:
  assumes "iteration M msg bs (s, mb) = Inr (s', mb')"
  shows "nextSequence s' = nextSequence s + 1 \<and> fmdom' (envelopes s') \<subseteq> fmdom' (envelopes s)"
proof -
  from assms obtain s2 mb2 where
    b: "byte_rule M msg bs (s\<lparr>nextSequence := nextSequence s + 1\<rparr>, mb) = Inr (s2, mb2)" and
    c: "count_rule bs (s2, mb2) = Inr (s', mb')"
    by (auto simp: iteration_def Let_def split: sum.splits)
  from byte_rule_shape [OF b] count_rule_shape [OF c] show ?thesis by auto
qed

text \<open>The \<open>for\<close> loop of \<open>Schedule\<close>: it runs while the map holds \<open>nextSequence\<close>. The map
  is finite and the keys at or above \<open>nextSequence\<close> get fewer with every pass, so the
  loop ends.\<close>

function drain ::
  "('e \<Rightarrow> uint32) \<Rightarrow> 'e \<Rightarrow> BatchSize \<Rightarrow> 'e Scheduler \<times> 'e batch list
     \<Rightarrow> error + ('e Scheduler \<times> 'e batch list)" where
  "drain messageSizeBytes msg bs st =
     (if nextSequence (fst st) |\<in>| fmdom (envelopes (fst st)) then
        (case iteration messageSizeBytes msg bs st of
           Inl e \<Rightarrow> Inl e
         | Inr st' \<Rightarrow> drain messageSizeBytes msg bs st')
      else Inr st)"
  by pat_completeness auto
termination
proof (relation "measure (\<lambda>(M, msg, bs, st).
         card {k \<in> fmdom' (envelopes (fst st)). nextSequence (fst st) \<le> k})", goal_cases)
  case 1
  show ?case by simp
next
  case (2 M msg bs st st')
  obtain s mb where st: "st = (s, mb)" by (cases st)
  obtain s' mb' where st': "st' = (s', mb')" by (cases st')
  from 2 st st' have it: "iteration M msg bs (s, mb) = Inr (s', mb')" by simp
  from 2 st have mem: "nextSequence s \<in> fmdom' (envelopes s)"
    by (simp add: fmdom'_alt_def)
  let ?A = "{k \<in> fmdom' (envelopes s). nextSequence s \<le> k}"
  let ?B = "{k \<in> fmdom' (envelopes s'). nextSequence s' \<le> k}"
  from iteration_shape [OF it] have "?B \<subseteq> ?A - {nextSequence s}" by auto
  moreover have "nextSequence s \<in> ?A" using mem by simp
  ultimately have "?B \<subset> ?A" by auto
  moreover have "finite ?A" by simp
  ultimately have "card ?B < card ?A" by (rule psubset_card_mono [rotated])
  with st st' show ?case by simp
qed

declare drain.simps [simp del]

text \<open>\<open>util.ParseCustomTXID\<close> is a collaborator outside the cutter: it is a parameter,
  returning the sequence together with an optional error. \<open>messageSizeBytes\<close> is a
  parameter as well.\<close>

datatype parse_error = ParseError

definition Schedule ::
  "(string \<Rightarrow> int \<times> parse_error option) \<Rightarrow> ('e \<Rightarrow> uint32) \<Rightarrow> 'e Scheduler \<Rightarrow> 'e \<Rightarrow> string
     \<Rightarrow> BatchSize \<Rightarrow> error + ('e Scheduler \<times> 'e batch list \<times> bool)" where
  "Schedule ParseCustomTXID messageSizeBytes s msg txID bs =
     (let messageBatches = [];
          (txSequence, _) = ParseCustomTXID txID;
          s1 = s\<lparr>envelopes := fmupd txSequence msg (envelopes s)\<rparr>
      in
      case (if nextSequence s1 = txSequence
            then drain messageSizeBytes msg bs (s1, messageBatches)
            else Inr (s1, messageBatches)) of
        Inl e \<Rightarrow> Inl e
      | Inr (s2, messageBatches') \<Rightarrow>
          let pending = (fmdom (envelopes s2) \<noteq> {||})
          in Inr (s2, messageBatches', pending))"


text \<open>A run of the cutter: the single caller of a channel calls \<open>Schedule\<close> once per
  message, each call with its envelope, its transaction identifier and the limits in force,
  and collects the batches in the order they are returned.\<close>

type_synonym 'e call = "'e \<times> string \<times> BatchSize"

fun ScheduleAll ::
  "(string \<Rightarrow> int \<times> parse_error option) \<Rightarrow> ('e \<Rightarrow> uint32) \<Rightarrow> 'e Scheduler \<Rightarrow> 'e call list
     \<Rightarrow> error + ('e Scheduler \<times> 'e batch list)" where
  "ScheduleAll P M s [] = Inr (s, [])"
| "ScheduleAll P M s ((msg, txID, bs) # cs) =
     (case Schedule P M s msg txID bs of
        Inl e \<Rightarrow> Inl e
      | Inr (s1, mb, pending) \<Rightarrow>
          (case ScheduleAll P M s1 cs of
             Inl e \<Rightarrow> Inl e
           | Inr (s2, mbs) \<Rightarrow> Inr (s2, mb @ mbs)))"

text \<open>The sequence number a call's transaction identifier maps to.\<close>

definition seq_of :: "(string \<Rightarrow> int \<times> parse_error option) \<Rightarrow> 'e call \<Rightarrow> int" where
  "seq_of P c = fst (P (fst (snd c)))"


text \<open>Concrete collaborators for the worked examples: a transaction-identifier table that
  fails on every identifier it does not know, returning sequence 0 beside the error as a Go
  function returning \<open>0, err\<close> does; envelopes that are a label and a byte size; and one
  set of limits.\<close>

definition demo_txid :: "string \<Rightarrow> int \<times> parse_error option" where
  "demo_txid t =
     (if t = ''tx0'' then (0, None)
      else if t = ''tx1'' then (1, None)
      else if t = ''tx2'' then (2, None)
      else if t = ''tx3'' then (3, None)
      else (0, Some ParseError))"

definition demo_size :: "string \<times> nat \<Rightarrow> uint32" where
  "demo_size e = of_nat (snd e)"

definition demo_limits :: BatchSize where
  "demo_limits = \<lparr>MaxMessageCount = 10, AbsoluteMaxBytes = 1000, PreferredMaxBytes = 100\<rparr>"

section \<open>Invariants of the batch cutter\<close>

text \<open>\<open>advances s s' cuts\<close>: from \<open>s\<close> to \<open>s'\<close> the start boundary moved forward, the
  keys passed over were deleted, and the batches \<open>cuts\<close> hold exactly the entries passed
  over, in sequence order.\<close>

definition advances :: "'e Scheduler \<Rightarrow> 'e Scheduler \<Rightarrow> 'e batch list \<Rightarrow> bool" where
  "advances s s' cuts \<longleftrightarrow>
     startSequence s \<le> startSequence s' \<and>
     envelopes s' = fmdrop_set {startSequence s..<startSequence s'} (envelopes s) \<and>
     concat cuts = map (fmlookup (envelopes s)) [startSequence s..startSequence s' - 1]"

lemma advances_same:
  "envelopes s' = envelopes s \<Longrightarrow> startSequence s' = startSequence s \<Longrightarrow> advances s s' []"
  by (simp add: advances_def)

lemma advances_cut:
  "startSequence s < e \<Longrightarrow> advances s ((cut_state s e)\<lparr>batchSize := b\<rparr>) [cut_batch s e]"
  by (simp add: advances_def cut_batch_def)

lemma advances_trans:
  assumes "advances s s1 c1" and "advances s1 s2 c2"
  shows "advances s s2 (c1 @ c2)"
proof -
  let ?a = "startSequence s" and ?b = "startSequence s1" and ?c = "startSequence s2"
  from assms have ab: "?a \<le> ?b" and bc: "?b \<le> ?c" by (auto simp: advances_def)
  have e1: "envelopes s1 = fmdrop_set {?a..<?b} (envelopes s)"
    and e2: "envelopes s2 = fmdrop_set {?b..<?c} (envelopes s1)"
    and k1: "concat c1 = map (fmlookup (envelopes s)) [?a..?b - 1]"
    and k2: "concat c2 = map (fmlookup (envelopes s1)) [?b..?c - 1]"
    using assms by (auto simp: advances_def)
  have un: "{?b..<?c} \<union> {?a..<?b} = {?a..<?c}" using ab bc by auto
  have env: "envelopes s2 = fmdrop_set {?a..<?c} (envelopes s)"
    by (simp add: e1 e2 un)
  have look: "map (fmlookup (envelopes s1)) [?b..?c - 1] = map (fmlookup (envelopes s)) [?b..?c - 1]"
    by (rule map_cong) (auto simp: e1)
  have split: "[?a..?c - 1] = [?a..?b - 1] @ [?b..?c - 1]"
  proof (cases "?b \<le> ?c - 1")
    case True
    with ab show ?thesis by (rule upto_split1)
  next
    case False
    with bc have "?b = ?c" by simp
    then show ?thesis by simp
  qed
  have "concat (c1 @ c2) = map (fmlookup (envelopes s)) [?a..?c - 1]"
    by (simp add: k1 k2 look split)
  with ab bc env show ?thesis by (simp add: advances_def)
qed

lemma advances_next [simp]:
  "advances (s\<lparr>nextSequence := n\<rparr>) s' c = advances s s' c"
  "advances s (s'\<lparr>nextSequence := n\<rparr>) c = advances s s' c"
  "advances s (s'\<lparr>batchSize := b\<rparr>) c = advances s s' c"
  by (simp_all add: advances_def)

lemma cut_reset_adv:
  assumes "startSequence s < nextSequence s"
  shows "\<exists>s' cuts. cut_reset (s, mb) = Inr (s', mb @ cuts) \<and> advances s s' cuts \<and>
           nextSequence s' = nextSequence s \<and> startSequence s' \<le> nextSequence s"
  using assms advances_cut [of s "nextSequence s" "batchSize s"]
  by (simp add: cut_reset_eq)

lemma byte_rule_adv:
  assumes "startSequence s < nextSequence s"
  shows "\<exists>s' cuts. byte_rule M msg bs (s, mb) = Inr (s', mb @ cuts) \<and> advances s s' cuts \<and>
           nextSequence s' = nextSequence s \<and> startSequence s' \<le> nextSequence s"
proof -
  let ?nb = "batchSize s + M msg"
  let ?P = "PreferredMaxBytes bs"
  consider (lt) "?nb < ?P"
    | (single) "\<not> ?nb < ?P" "?nb > ?P" "nextSequence s - startSequence s = 1"
    | (multi) "\<not> ?nb < ?P" "?nb > ?P" "nextSequence s - startSequence s \<noteq> 1"
    | (eq) "\<not> ?nb < ?P" "\<not> ?nb > ?P"
    by blast
  then show ?thesis
  proof cases
    case lt
    then have "byte_rule M msg bs (s, mb) = Inr (s\<lparr>batchSize := ?nb\<rparr>, mb @ [])"
      by (simp add: byte_rule_def)
    moreover have "advances s (s\<lparr>batchSize := ?nb\<rparr>) []" by (simp add: advances_same)
    ultimately show ?thesis using assms
      by (intro exI [of _ "s\<lparr>batchSize := ?nb\<rparr>"] exI [of _ "[]"]) simp
  next
    case single
    then have "byte_rule M msg bs (s, mb) = cut_reset (s, mb)"
      by (simp add: byte_rule_def)
    with cut_reset_adv [OF assms, of mb] show ?thesis by simp
  next
    case eq
    then have "byte_rule M msg bs (s, mb) = cut_reset (s, mb)"
      by (simp add: byte_rule_def)
    with cut_reset_adv [OF assms, of mb] show ?thesis by simp
  next
    case multi
    with assms have lt1: "startSequence s < nextSequence s - 1" by simp
    let ?s1 = "cut_state s (nextSequence s - 1)"
    let ?b1 = "cut_batch s (nextSequence s - 1)"
    have a1: "advances s ?s1 [?b1]"
      using advances_cut [OF lt1, of "batchSize s"] by simp
    show ?thesis
    proof (cases "M msg \<ge> ?P")
      case True
      with multi lt1 have br: "byte_rule M msg bs (s, mb) = cut_reset (?s1, mb @ [?b1])"
        by (simp add: byte_rule_def Cut_eq)
      have "startSequence ?s1 < nextSequence ?s1" by simp
      from cut_reset_adv [OF this, of "mb @ [?b1]"] obtain s' cuts where
        c: "cut_reset (?s1, mb @ [?b1]) = Inr (s', (mb @ [?b1]) @ cuts)"
        and a2: "advances ?s1 s' cuts" and n: "nextSequence s' = nextSequence ?s1"
        and le: "startSequence s' \<le> nextSequence ?s1" by blast
      from advances_trans [OF a1 a2] have "advances s s' ([?b1] @ cuts)" .
      with br c n le show ?thesis by (intro exI [of _ s'] exI [of _ "[?b1] @ cuts"]) simp
    next
      case False
      with multi lt1 have br: "byte_rule M msg bs (s, mb)
          = Inr (?s1\<lparr>batchSize := M msg\<rparr>, mb @ [?b1])"
        by (simp add: byte_rule_def Cut_eq)
      with a1 show ?thesis by (intro exI [of _ "?s1\<lparr>batchSize := M msg\<rparr>"] exI [of _ "[?b1]"]) simp
    qed
  qed
qed

lemma count_rule_adv:
  assumes "startSequence s \<le> nextSequence s" and "MaxMessageCount bs \<noteq> 0"
  shows "\<exists>s' cuts. count_rule bs (s, mb) = Inr (s', mb @ cuts) \<and> advances s s' cuts \<and>
           nextSequence s' = nextSequence s \<and> startSequence s' \<le> nextSequence s"
proof (cases "(word_of_int (nextSequence s - startSequence s) :: uint32) \<ge> MaxMessageCount bs")
  case True
  have "startSequence s \<noteq> nextSequence s"
  proof
    assume "startSequence s = nextSequence s"
    with True have "MaxMessageCount bs \<le> 0" by simp
    with assms(2) show False by simp
  qed
  with assms have lt: "startSequence s < nextSequence s" by simp
  from True have "count_rule bs (s, mb) = cut_reset (s, mb)" by (simp add: count_rule_def)
  with cut_reset_adv [OF lt, of mb] show ?thesis by simp
next
  case False
  then have "count_rule bs (s, mb) = Inr (s, mb @ [])" by (simp add: count_rule_def)
  moreover have "advances s s []" by (simp add: advances_same)
  ultimately show ?thesis using assms by (intro exI [of _ s] exI [of _ "[]"]) simp
qed

lemma iteration_adv:
  assumes "startSequence s \<le> nextSequence s" and "MaxMessageCount bs \<noteq> 0"
  shows "\<exists>s' cuts. iteration M msg bs (s, mb) = Inr (s', mb @ cuts) \<and> advances s s' cuts \<and>
           nextSequence s' = nextSequence s + 1 \<and> startSequence s' \<le> nextSequence s'"
proof -
  let ?s1 = "s\<lparr>nextSequence := nextSequence s + 1\<rparr>"
  have "startSequence ?s1 < nextSequence ?s1" using assms by simp
  from byte_rule_adv [OF this, of M msg bs mb] obtain s2 c2 where
    b: "byte_rule M msg bs (?s1, mb) = Inr (s2, mb @ c2)" and a2: "advances s s2 c2"
    and n2: "nextSequence s2 = nextSequence s + 1" and le2: "startSequence s2 \<le> nextSequence s + 1"
    by auto
  from le2 n2 have "startSequence s2 \<le> nextSequence s2" by simp
  from count_rule_adv [OF this assms(2), of "mb @ c2"] obtain s3 c3 where
    c: "count_rule bs (s2, mb @ c2) = Inr (s3, (mb @ c2) @ c3)" and a3: "advances s2 s3 c3"
    and n3: "nextSequence s3 = nextSequence s2" and le3: "startSequence s3 \<le> nextSequence s2"
    by blast
  have "iteration M msg bs (s, mb) = Inr (s3, mb @ (c2 @ c3))"
    using b c by (simp add: iteration_def)
  moreover from advances_trans [OF a2 a3] have "advances s s3 (c2 @ c3)" .
  ultimately show ?thesis using n2 n3 le3 by (intro exI [of _ s3] exI [of _ "c2 @ c3"]) simp
qed

lemma drain_adv:
  assumes "startSequence (fst st) \<le> nextSequence (fst st)" and "MaxMessageCount bs \<noteq> 0"
  shows "\<exists>s' cuts. drain M msg bs st = Inr (s', snd st @ cuts) \<and> advances (fst st) s' cuts \<and>
           nextSequence (fst st) \<le> nextSequence s' \<and> startSequence s' \<le> nextSequence s' \<and>
           nextSequence s' |\<notin>| fmdom (envelopes (fst st)) \<and>
           (\<forall>k. nextSequence (fst st) \<le> k \<and> k < nextSequence s' \<longrightarrow> k |\<in>| fmdom (envelopes (fst st)))"
  using assms
proof (induction M msg bs st rule: drain.induct)
  case (1 M msg bs st)
  obtain s mb where st: "st = (s, mb)" by (cases st)
  show ?case
  proof (cases "nextSequence s |\<in>| fmdom (envelopes s)")
    case False
    then have "drain M msg bs st = Inr (s, mb @ [])"
      using st by (subst drain.simps) simp
    moreover have "advances s s []" by (simp add: advances_same)
    ultimately show ?thesis using st False "1.prems"
      by (intro exI [of _ s] exI [of _ "[]"]) auto
  next
    case True
    from "1.prems" st have le: "startSequence s \<le> nextSequence s" by simp
    from iteration_adv [OF le "1.prems"(2), of M msg mb] obtain s1 c1 where
      it: "iteration M msg bs (s, mb) = Inr (s1, mb @ c1)" and a1: "advances s s1 c1"
      and n1: "nextSequence s1 = nextSequence s + 1" and le1: "startSequence s1 \<le> nextSequence s1"
      by blast
    have "\<exists>s' cuts. drain M msg bs (s1, mb @ c1) = Inr (s', snd (s1, mb @ c1) @ cuts) \<and>
            advances (fst (s1, mb @ c1)) s' cuts \<and>
            nextSequence (fst (s1, mb @ c1)) \<le> nextSequence s' \<and> startSequence s' \<le> nextSequence s' \<and>
            nextSequence s' |\<notin>| fmdom (envelopes (fst (s1, mb @ c1))) \<and>
            (\<forall>k. nextSequence (fst (s1, mb @ c1)) \<le> k \<and> k < nextSequence s'
                 \<longrightarrow> k |\<in>| fmdom (envelopes (fst (s1, mb @ c1))))"
      using True st it le1 "1.prems"(2) by (intro "1.IH") simp_all
    then obtain s' c2 where
      d: "drain M msg bs (s1, mb @ c1) = Inr (s', (mb @ c1) @ c2)" and a2: "advances s1 s' c2"
      and n2: "nextSequence s1 \<le> nextSequence s'" and le2: "startSequence s' \<le> nextSequence s'"
      and stop: "nextSequence s' |\<notin>| fmdom (envelopes s1)"
      and rel: "\<forall>k. nextSequence s1 \<le> k \<and> k < nextSequence s' \<longrightarrow> k |\<in>| fmdom (envelopes s1)"
      by auto
    have env1: "envelopes s1 = fmdrop_set {startSequence s..<startSequence s1} (envelopes s)"
      using a1 by (simp add: advances_def)
    have dr: "drain M msg bs st = Inr (s', mb @ (c1 @ c2))"
      using True st it d by (subst drain.simps) simp
    have stop': "nextSequence s' |\<notin>| fmdom (envelopes s)"
    proof
      assume "nextSequence s' |\<in>| fmdom (envelopes s)"
      then have "nextSequence s' \<in> fmdom' (envelopes s)" by (simp add: fmdom'_alt_def)
      moreover have "nextSequence s' \<notin> {startSequence s..<startSequence s1}"
        using le1 n2 by simp
      ultimately have "nextSequence s' \<in> fmdom' (envelopes s1)" by (simp add: env1)
      with stop show False by (simp add: fmdom'_alt_def)
    qed
    have rel': "\<forall>k. nextSequence s \<le> k \<and> k < nextSequence s' \<longrightarrow> k |\<in>| fmdom (envelopes s)"
    proof (intro allI impI)
      fix k assume k: "nextSequence s \<le> k \<and> k < nextSequence s'"
      show "k |\<in>| fmdom (envelopes s)"
      proof (cases "k = nextSequence s")
        case True
        with \<open>nextSequence s |\<in>| fmdom (envelopes s)\<close> show ?thesis by simp
      next
        case False
        with k n1 have "nextSequence s1 \<le> k \<and> k < nextSequence s'" by simp
        with rel have "k |\<in>| fmdom (envelopes s1)" by blast
        then have "k \<in> fmdom' (envelopes s1)" by (simp add: fmdom'_alt_def)
        then have "k \<in> fmdom' (envelopes s)" by (simp add: env1)
        then show ?thesis by (simp add: fmdom'_alt_def)
      qed
    qed
    from advances_trans [OF a1 a2] have "advances s s' (c1 @ c2)" .
    with dr stop' rel' n1 n2 le2 st show ?thesis
      by (intro exI [of _ s'] exI [of _ "c1 @ c2"]) simp
  qed
qed

lemma Schedule_adv:
  assumes le: "startSequence s \<le> nextSequence s" and C: "MaxMessageCount bs \<noteq> 0"
    and gap: "nextSequence s |\<notin>| fmdom (envelopes s)"
  shows "\<exists>s' cuts. Schedule P M s msg t bs = Inr (s', cuts, fmdom (envelopes s') \<noteq> {||}) \<and>
           advances (s\<lparr>envelopes := fmupd (fst (P t)) msg (envelopes s)\<rparr>) s' cuts \<and>
           nextSequence s \<le> nextSequence s' \<and> startSequence s' \<le> nextSequence s' \<and>
           nextSequence s' |\<notin>| fmdom (fmupd (fst (P t)) msg (envelopes s)) \<and>
           (\<forall>k. nextSequence s \<le> k \<and> k < nextSequence s'
                \<longrightarrow> k |\<in>| fmdom (fmupd (fst (P t)) msg (envelopes s)))"
proof -
  let ?k = "fst (P t)"
  let ?env1 = "fmupd (fst (P t)) msg (envelopes s)"
  let ?s1 = "s\<lparr>envelopes := ?env1\<rparr>"
  show ?thesis
  proof (cases "nextSequence s = ?k")
    case False
    then have "Schedule P M s msg t bs = Inr (?s1, [], fmdom (envelopes ?s1) \<noteq> {||})"
      by (simp add: Schedule_def Let_def case_prod_beta)
    moreover have "advances ?s1 ?s1 []" by (simp add: advances_same)
    moreover have "nextSequence s |\<notin>| fmdom ?env1" using gap False by simp
    ultimately show ?thesis using le
      by (intro exI [of _ ?s1] exI [of _ "[]"]) auto
  next
    case True
    have "startSequence (fst (?s1, [])) \<le> nextSequence (fst (?s1, []))" using le by simp
    from drain_adv [OF this C, of M msg] obtain s' cuts where
      d: "drain M msg bs (?s1, []) = Inr (s', cuts)" and a: "advances ?s1 s' cuts"
      and n: "nextSequence s \<le> nextSequence s'" and l: "startSequence s' \<le> nextSequence s'"
      and stop: "nextSequence s' |\<notin>| fmdom ?env1"
      and rel: "\<forall>k. nextSequence s \<le> k \<and> k < nextSequence s' \<longrightarrow> k |\<in>| fmdom ?env1"
      by auto
    have "Schedule P M s msg t bs = Inr (s', cuts, fmdom (envelopes s') \<noteq> {||})"
      using True d by (simp add: Schedule_def Let_def case_prod_beta)
    with a n l stop rel show ?thesis by blast
  qed
qed

definition Inv :: "'e Scheduler \<Rightarrow> (int \<rightharpoonup> 'e) \<Rightarrow> bool" where
  "Inv s m \<longleftrightarrow>
     0 \<le> startSequence s \<and> startSequence s \<le> nextSequence s \<and>
     nextSequence s \<notin> dom m \<and>
     (\<forall>k. 0 \<le> k \<and> k < nextSequence s \<longrightarrow> k \<in> dom m) \<and>
     (\<forall>k. fmlookup (envelopes s) k = (if startSequence s \<le> k then m k else None))"

lemma Inv_New: "Inv NewScheduler Map.empty"
  by (simp add: Inv_def NewScheduler_def)

lemma Schedule_Inv:
  assumes inv: "Inv s m" and C: "MaxMessageCount bs \<noteq> 0"
    and k0: "0 \<le> fst (P t)" and fresh: "fst (P t) \<notin> dom m"
  shows "\<exists>s' cuts p. Schedule P M s msg t bs = Inr (s', cuts, p) \<and>
           Inv s' (m(fst (P t) \<mapsto> msg)) \<and>
           startSequence s \<le> startSequence s' \<and> nextSequence s \<le> nextSequence s' \<and>
           concat cuts = map (m(fst (P t) \<mapsto> msg)) [startSequence s..startSequence s' - 1]"
proof -
  let ?k = "fst (P t)"
  let ?m' = "m(?k \<mapsto> msg)"
  let ?env1 = "fmupd ?k msg (envelopes s)"
  from inv have st0: "0 \<le> startSequence s" and le: "startSequence s \<le> nextSequence s"
    and gapm: "nextSequence s \<notin> dom m"
    and dense: "\<forall>k. 0 \<le> k \<and> k < nextSequence s \<longrightarrow> k \<in> dom m"
    and look: "\<And>k. fmlookup (envelopes s) k = (if startSequence s \<le> k then m k else None)"
    by (auto simp: Inv_def)
  have kge: "nextSequence s \<le> ?k"
  proof (rule ccontr)
    assume "\<not> nextSequence s \<le> ?k"
    with k0 dense have "?k \<in> dom m" by auto
    with fresh show False by simp
  qed
  have look1: "\<And>j. fmlookup ?env1 j = (if startSequence s \<le> j then ?m' j else None)"
    using kge le by (auto simp: look)
  have gap: "nextSequence s |\<notin>| fmdom (envelopes s)"
  proof -
    have "fmlookup (envelopes s) (nextSequence s) = None" using gapm le by (auto simp: look)
    then show ?thesis by (rule fmdom_notI)
  qed
  from Schedule_adv [where P=P and t=t and msg=msg and M=M, OF le C gap] obtain s' cuts where
    sch: "Schedule P M s msg t bs = Inr (s', cuts, fmdom (envelopes s') \<noteq> {||})"
    and adv: "advances (s\<lparr>envelopes := ?env1\<rparr>) s' cuts"
    and n: "nextSequence s \<le> nextSequence s'" and l: "startSequence s' \<le> nextSequence s'"
    and stop: "nextSequence s' |\<notin>| fmdom ?env1"
    and rel: "\<forall>k. nextSequence s \<le> k \<and> k < nextSequence s' \<longrightarrow> k |\<in>| fmdom ?env1"
    by blast
  from adv have ss: "startSequence s \<le> startSequence s'"
    and env': "envelopes s' = fmdrop_set {startSequence s..<startSequence s'} ?env1"
    and cc: "concat cuts = map (fmlookup ?env1) [startSequence s..startSequence s' - 1]"
    by (auto simp: advances_def)
  have look': "fmlookup (envelopes s') j = (if startSequence s' \<le> j then ?m' j else None)" for j
  proof -
    have "fmlookup (envelopes s') j
          = (if j \<notin> {startSequence s..<startSequence s'} then fmlookup ?env1 j else None)"
      by (simp only: env' fmlookup_drop_set)
    also have "\<dots> = (if j \<notin> {startSequence s..<startSequence s'}
                      then (if startSequence s \<le> j then ?m' j else None) else None)"
      by (simp only: look1)
    also have "\<dots> = (if startSequence s' \<le> j then ?m' j else None)"
      using ss by auto
    finally show ?thesis .
  qed
  have stop': "nextSequence s' \<notin> dom ?m'"
  proof -
    from stop have "fmlookup ?env1 (nextSequence s') = None" by (simp add: fmdom_notD)
    moreover have "startSequence s \<le> nextSequence s'" using le n by simp
    ultimately have "?m' (nextSequence s') = None" using look1 [of "nextSequence s'"] by simp
    then show ?thesis by (auto simp: domIff split: if_splits)
  qed
  have dense': "\<forall>j. 0 \<le> j \<and> j < nextSequence s' \<longrightarrow> j \<in> dom ?m'"
  proof (intro allI impI)
    fix j assume j: "0 \<le> j \<and> j < nextSequence s'"
    show "j \<in> dom ?m'"
    proof (cases "j < nextSequence s")
      case True
      with j dense have "j \<in> dom m" by simp
      then show ?thesis by simp
    next
      case False
      with j rel have "j |\<in>| fmdom ?env1" by simp
      then obtain v where v: "fmlookup ?env1 j = Some v" by (meson fmlookup_dom_iff)
      have "startSequence s \<le> j" using False le by simp
      with v [unfolded look1] have "?m' j = Some v" by simp
      then show ?thesis by (auto simp: domIff split: if_splits)
    qed
  qed
  have conc: "concat cuts = map ?m' [startSequence s..startSequence s' - 1]"
    unfolding cc
  proof (rule map_cong [OF refl])
    fix j assume "j \<in> set [startSequence s..startSequence s' - 1]"
    then have "startSequence s \<le> j" by simp
    then show "fmlookup ?env1 j = ?m' j" unfolding look1 by simp
  qed
  have "Inv s' ?m'"
    unfolding Inv_def using st0 ss l stop' dense' look' by auto
  with sch ss n conc show ?thesis by blast
qed

definition pushed :: "(string \<Rightarrow> int \<times> parse_error option) \<Rightarrow> 'e call list \<Rightarrow> (int \<rightharpoonup> 'e)" where
  "pushed P cs = map_of (map (\<lambda>c. (seq_of P c, fst c)) cs)"

lemma dom_pushed: "dom (pushed P cs) = seq_of P ` set cs"
  by (force simp: pushed_def dom_map_of_conv_image_fst)

lemma ScheduleAll_Inv:
  assumes "Inv s m"
    and "distinct (map (seq_of P) cs)"
    and "\<forall>c \<in> set cs. 0 \<le> seq_of P c \<and> seq_of P c \<notin> dom m \<and> MaxMessageCount (snd (snd c)) \<noteq> 0"
  shows "\<exists>s' mbs. ScheduleAll P M s cs = Inr (s', mbs) \<and>
           Inv s' (m ++ pushed P cs) \<and>
           startSequence s \<le> startSequence s' \<and> nextSequence s \<le> nextSequence s' \<and>
           concat mbs = map (m ++ pushed P cs) [startSequence s..startSequence s' - 1]"
  using assms
proof (induction cs arbitrary: s m)
  case Nil
  then show ?case by (simp add: pushed_def)
next
  case (Cons c cs)
  obtain msg t bs where c: "c = (msg, t, bs)" by (cases c)
  let ?k = "fst (P t)"
  let ?m1 = "m(?k \<mapsto> msg)"
  have sk: "seq_of P c = ?k" by (simp add: seq_of_def c)
  from Cons.prems c sk have C: "MaxMessageCount bs \<noteq> 0" and k0: "0 \<le> ?k" and fresh: "?k \<notin> dom m"
    by auto
  from Schedule_Inv [where P=P and t=t and msg=msg and M=M, OF Cons.prems(1) C k0 fresh] obtain s1 cuts p where
    sch: "Schedule P M s msg t bs = Inr (s1, cuts, p)" and inv1: "Inv s1 ?m1"
    and ss1: "startSequence s \<le> startSequence s1" and nn1: "nextSequence s \<le> nextSequence s1"
    and cc1: "concat cuts = map ?m1 [startSequence s..startSequence s1 - 1]"
    by blast
  have d: "distinct (map (seq_of P) cs)" using Cons.prems(2) by simp
  have knotin: "?k \<notin> seq_of P ` set cs" using Cons.prems(2) sk by auto
  then have kne: "\<forall>c' \<in> set cs. seq_of P c' \<noteq> ?k" by (metis image_eqI)
  have pre: "\<forall>c \<in> set cs. 0 \<le> seq_of P c \<and> seq_of P c \<notin> dom ?m1
                \<and> MaxMessageCount (snd (snd c)) \<noteq> 0"
    using Cons.prems(3) kne by auto
  from Cons.IH [OF inv1 d pre] obtain s' mbs where
    run: "ScheduleAll P M s1 cs = Inr (s', mbs)" and inv': "Inv s' (?m1 ++ pushed P cs)"
    and ss2: "startSequence s1 \<le> startSequence s'" and nn2: "nextSequence s1 \<le> nextSequence s'"
    and cc2: "concat mbs = map (?m1 ++ pushed P cs) [startSequence s1..startSequence s' - 1]"
    by blast
  have meq: "?m1 ++ pushed P cs = m ++ pushed P (c # cs)"
  proof (rule ext)
    fix j
    show "(?m1 ++ pushed P cs) j = (m ++ pushed P (c # cs)) j"
    proof (cases "j \<in> dom (pushed P cs)")
      case True
      then have "j \<noteq> ?k" using kne by (auto simp: dom_pushed)
      with True show ?thesis by (auto simp: map_add_def pushed_def sk c seq_of_def split: option.splits)
    next
      case False
      then have "pushed P cs j = None" by (simp add: domIff)
      then show ?thesis by (auto simp: map_add_def pushed_def c seq_of_def split: option.splits)
    qed
  qed
  have res: "ScheduleAll P M s (c # cs) = Inr (s', cuts @ mbs)"
    using sch run by (simp add: c)
  have old: "map ?m1 [startSequence s..startSequence s1 - 1]
             = map (?m1 ++ pushed P cs) [startSequence s..startSequence s1 - 1]"
  proof (rule map_cong [OF refl])
    fix j assume "j \<in> set [startSequence s..startSequence s1 - 1]"
    then have j: "startSequence s \<le> j" "j < startSequence s1" by auto
    from inv1 have "startSequence s1 \<le> nextSequence s1"
      and "\<forall>k. 0 \<le> k \<and> k < nextSequence s1 \<longrightarrow> k \<in> dom ?m1" by (auto simp: Inv_def)
    moreover from Cons.prems(1) have "0 \<le> startSequence s" by (simp add: Inv_def)
    ultimately have "j \<in> dom ?m1" using j by auto
    moreover have "j \<notin> dom (pushed P cs)"
      using \<open>j \<in> dom ?m1\<close> pre by (auto simp: dom_pushed)
    ultimately show "?m1 j = (?m1 ++ pushed P cs) j"
      by (auto simp: map_add_def domIff split: option.splits)
  qed
  have split: "[startSequence s..startSequence s' - 1]
      = [startSequence s..startSequence s1 - 1] @ [startSequence s1..startSequence s' - 1]"
  proof (cases "startSequence s1 \<le> startSequence s' - 1")
    case True
    with ss1 show ?thesis by (rule upto_split1)
  next
    case False
    with ss2 have "startSequence s1 = startSequence s'" by simp
    then show ?thesis by simp
  qed
  have "concat (cuts @ mbs) = map (m ++ pushed P (c # cs)) [startSequence s..startSequence s' - 1]"
    by (simp add: cc1 cc2 old split meq [symmetric])
  with res inv' ss1 ss2 nn1 nn2 meq show ?case
    by (intro exI [of _ s'] exI [of _ "cuts @ mbs"]) simp
qed

lemma sorted_list_of_set_split:
  fixes A B :: "int set"
  assumes "finite A" "finite B" "\<forall>a \<in> A. \<forall>b \<in> B. a < b"
  shows "sorted_list_of_set (A \<union> B) = sorted_list_of_set A @ sorted_list_of_set B"
proof (rule sorted_distinct_set_unique)
  show "sorted (sorted_list_of_set (A \<union> B))" by simp
  show "distinct (sorted_list_of_set (A \<union> B))" by simp
  show "sorted (sorted_list_of_set A @ sorted_list_of_set B)"
    using assms by (auto simp: sorted_append intro: less_imp_le)
  show "distinct (sorted_list_of_set A @ sorted_list_of_set B)"
    using assms by auto
  show "set (sorted_list_of_set (A \<union> B)) = set (sorted_list_of_set A @ sorted_list_of_set B)"
    using assms by simp
qed

lemma sorted_list_of_set_upto: "sorted_list_of_set {i..j} = [i..j::int]"
  by (rule sorted_distinct_set_unique) simp_all

lemma map_sort_key: "map f (sort_key f xs) = sort (map f xs)"
  by (rule properties_for_sort [symmetric]) simp_all

lemma pushed_Some:
  assumes "distinct (map (seq_of P) cs)" and "c \<in> set cs"
  shows "pushed P cs (seq_of P c) = Some (fst c)"
proof -
  have "distinct (map fst (map (\<lambda>c. (seq_of P c, fst c)) cs))"
    using assms(1) by (simp add: comp_def)
  moreover have "(seq_of P c, fst c) \<in> set (map (\<lambda>c. (seq_of P c, fst c)) cs)"
    using assms(2) by auto
  ultimately show ?thesis unfolding pushed_def by (rule map_of_is_SomeI)
qed

lemma pushed_sorted:
  assumes "distinct (map (seq_of P) cs)"
  shows "map (pushed P cs) (sorted_list_of_set (dom (pushed P cs)))
         = map (\<lambda>c. Some (fst c)) (sort_key (seq_of P) cs)"
proof -
  have "sorted_list_of_set (dom (pushed P cs)) = sort (map (seq_of P) cs)"
    using assms by (simp add: dom_pushed sorted_list_of_set_sort_remdups distinct_remdups_id flip: set_map)
  also have "\<dots> = map (seq_of P) (sort_key (seq_of P) cs)" by (simp add: map_sort_key)
  finally have "map (pushed P cs) (sorted_list_of_set (dom (pushed P cs)))
        = map (\<lambda>c. pushed P cs (seq_of P c)) (sort_key (seq_of P) cs)"
    by (simp add: comp_def)
  also have "\<dots> = map (\<lambda>c. Some (fst c)) (sort_key (seq_of P) cs)"
    by (rule map_cong [OF refl]) (simp add: pushed_Some [OF assms])
  finally show ?thesis .
qed

lemma Inv_buffered:
  assumes inv: "Inv s m" and fin: "finite (dom m)" and nonneg: "\<forall>k \<in> dom m. 0 \<le> k"
  shows "map m [0..startSequence s - 1]
           @ map (fmlookup (envelopes s)) (sorted_list_of_set (fmdom' (envelopes s)))
         = map m (sorted_list_of_set (dom m))"
proof -
  let ?a = "startSequence s"
  let ?D = "{k \<in> dom m. ?a \<le> k}"
  from inv have a0: "0 \<le> ?a" and le: "?a \<le> nextSequence s"
    and dense: "\<forall>k. 0 \<le> k \<and> k < nextSequence s \<longrightarrow> k \<in> dom m"
    and look: "\<And>k. fmlookup (envelopes s) k = (if ?a \<le> k then m k else None)"
    by (auto simp: Inv_def)
  have domenv: "fmdom' (envelopes s) = ?D"
    by (auto simp: fmlookup_dom'_iff look domIff split: if_splits)
  have un: "dom m = {0..?a - 1} \<union> ?D"
  proof (intro set_eqI iffI)
    fix x assume x: "x \<in> dom m"
    with nonneg have "0 \<le> x" by blast
    with x show "x \<in> {0..?a - 1} \<union> ?D" by auto
  next
    fix x assume "x \<in> {0..?a - 1} \<union> ?D"
    then show "x \<in> dom m" using dense le by auto
  qed
  have "sorted_list_of_set (dom m) = sorted_list_of_set ({0..?a - 1} \<union> ?D)"
    using un by simp
  also have "\<dots> = sorted_list_of_set {0..?a - 1} @ sorted_list_of_set ?D"
    using fin by (intro sorted_list_of_set_split) auto
  finally have sl: "sorted_list_of_set (dom m) = [0..?a - 1] @ sorted_list_of_set ?D"
    by (simp add: sorted_list_of_set_upto)
  have "map (fmlookup (envelopes s)) (sorted_list_of_set ?D) = map m (sorted_list_of_set ?D)"
    using fin by (intro map_cong [OF refl]) (simp add: look)
  then show ?thesis by (simp add: domenv sl)
qed

lemma ScheduleAll_complete:
  assumes d: "distinct (map (seq_of P) cs)"
    and ok: "\<forall>c \<in> set cs. 0 \<le> seq_of P c \<and> MaxMessageCount (snd (snd c)) \<noteq> 0"
  shows "\<exists>s' mbs. ScheduleAll P M NewScheduler cs = Inr (s', mbs) \<and>
           concat mbs @ map (fmlookup (envelopes s')) (sorted_list_of_set (fmdom' (envelopes s')))
             = map (\<lambda>c. Some (fst c)) (sort_key (seq_of P) cs)"
proof -
  have pre: "\<forall>c \<in> set cs. 0 \<le> seq_of P c \<and> seq_of P c \<notin> dom (Map.empty :: int \<rightharpoonup> 'a)
               \<and> MaxMessageCount (snd (snd c)) \<noteq> 0"
    using ok by simp
  from ScheduleAll_Inv [OF Inv_New d pre, of M] obtain s' mbs where
    run: "ScheduleAll P M NewScheduler cs = Inr (s', mbs)" and inv: "Inv s' (pushed P cs)"
    and cc: "concat mbs = map (pushed P cs) [0..startSequence s' - 1]"
    by (auto simp: NewScheduler_def)
  have fin: "finite (dom (pushed P cs))" by (simp add: dom_pushed)
  have nonneg: "\<forall>k \<in> dom (pushed P cs). 0 \<le> k" using ok by (auto simp: dom_pushed)
  from Inv_buffered [OF inv fin nonneg] cc pushed_sorted [OF d] run show ?thesis by simp
qed

section \<open>Properties of the batch cutter\<close>

text \<open>
  Claim C8. \<open>Cut\<close> called with an end sequence at or below the start boundary panics; it
  never returns an empty batch. Called with an end sequence above the boundary it returns
  the map's entries at the sequences from the boundary up to the end sequence minus one, in
  that order, removes those keys from the map, and moves the boundary to the end sequence.
\<close>

theorem Cut_contract:
  "(endSeq \<le> startSequence s \<longrightarrow> Cut s endSeq = Inl Panic) \<and>
   (\<forall>s' b. Cut s endSeq = Inr (s', b) \<longrightarrow> b \<noteq> []) \<and>
   (startSequence s < endSeq \<longrightarrow>
      (\<exists>s' b. Cut s endSeq = Inr (s', b) \<and>
         b = map (fmlookup (envelopes s)) [startSequence s..endSeq - 1] \<and>
         length b = nat (endSeq - startSequence s) \<and>
         startSequence s' = endSeq \<and>
         envelopes s' = fmdrop_set {startSequence s..<endSeq} (envelopes s) \<and>
         nextSequence s' = nextSequence s \<and> batchSize s' = batchSize s))"
proof (intro conjI impI allI)
  assume "endSeq \<le> startSequence s"
  then show "Cut s endSeq = Inl Panic" by (simp add: Cut_eq)
next
  fix s' b
  assume "Cut s endSeq = Inr (s', b)"
  then have lt: "startSequence s < endSeq" and b: "b = cut_batch s endSeq"
    by (auto simp: Cut_eq split: if_splits)
  from lt have "[startSequence s..endSeq - 1] \<noteq> []" by simp
  with b show "b \<noteq> []" by (simp add: cut_batch_def)
next
  assume lt: "startSequence s < endSeq"
  then have "Cut s endSeq = Inr (cut_state s endSeq, cut_batch s endSeq)"
    by (simp add: Cut_eq)
  then show "\<exists>s' b. Cut s endSeq = Inr (s', b) \<and>
         b = map (fmlookup (envelopes s)) [startSequence s..endSeq - 1] \<and>
         length b = nat (endSeq - startSequence s) \<and>
         startSequence s' = endSeq \<and>
         envelopes s' = fmdrop_set {startSequence s..<endSeq} (envelopes s) \<and>
         nextSequence s' = nextSequence s \<and> batchSize s' = batchSize s"
    using lt by (simp add: cut_batch_def)
qed

theorem Cut_contract_witness:
  "Cut \<lparr>envelopes = fmupd 1 (20::nat) (fmupd 0 10 fmempty), startSequence = 0,
        nextSequence = 2, batchSize = 0\<rparr> 0 = Inl Panic \<and>
   (\<exists>s' b. Cut \<lparr>envelopes = fmupd 1 (20::nat) (fmupd 0 10 fmempty), startSequence = 0,
                 nextSequence = 2, batchSize = 0\<rparr> 2 = Inr (s', b) \<and>
      b = [Some 10, Some 20] \<and> startSequence s' = 2 \<and> b \<noteq> [])"
proof -
  let ?s = "\<lparr>envelopes = fmupd 1 (20::nat) (fmupd 0 10 fmempty), startSequence = 0,
             nextSequence = 2, batchSize = 0\<rparr>"
  have up: "[0..(1::int)] = [0, 1]" by (simp add: upto_rec1)
  from Cut_contract [of 0 ?s] have p: "Cut ?s 0 = Inl Panic" by simp
  from Cut_contract [of 2 ?s] obtain s' b where
    "Cut ?s 2 = Inr (s', b)" "b = map (fmlookup (envelopes ?s)) [0..1]" "startSequence s' = 2"
    by auto
  then have "Cut ?s 2 = Inr (s', b) \<and> b = [Some 10, Some 20] \<and> startSequence s' = 2 \<and> b \<noteq> []"
    by (simp add: up)
  with p show ?thesis by blast
qed


text \<open>
  Claim C2. In a run of the batch cutter from a new scheduler, in which the calls carry
  distinct sequence numbers taken from 0, 1, 2, ... (any part of a permutation of 0..N-1,
  in any order) and every call's count limit is at least 1, no call panics, and the batches
  emitted so far, concatenated in the order of emission and followed by the envelopes still
  held in the map in key order (the forming batch and the envelopes waiting behind a gap),
  are exactly the envelopes scheduled so far in sequence order: none twice, none missing,
  and no nil entry.
\<close>

theorem Schedule_completeness:
  assumes "distinct (map (seq_of P) cs)"
    and "\<forall>c \<in> set cs. 0 \<le> seq_of P c \<and> MaxMessageCount (snd (snd c)) \<noteq> 0"
  shows "\<exists>s' mbs. ScheduleAll P M NewScheduler cs = Inr (s', mbs) \<and>
           concat mbs @ map (fmlookup (envelopes s')) (sorted_list_of_set (fmdom' (envelopes s')))
             = map (\<lambda>c. Some (fst c)) (sort_key (seq_of P) cs)"
  using assms by (rule ScheduleAll_complete)

theorem Schedule_completeness_witness:
  "\<exists>s' mbs. ScheduleAll demo_txid demo_size NewScheduler
        [((''b'', 30), ''tx1'', demo_limits), ((''a'', 30), ''tx0'', demo_limits),
         ((''d'', 30), ''tx3'', demo_limits)] = Inr (s', mbs) \<and>
      concat mbs @ map (fmlookup (envelopes s')) (sorted_list_of_set (fmdom' (envelopes s')))
        = [Some (''a'', 30), Some (''b'', 30), Some (''d'', 30)]"
proof -
  let ?cs = "[((''b'', 30::nat), ''tx1'', demo_limits), ((''a'', 30), ''tx0'', demo_limits),
              ((''d'', 30), ''tx3'', demo_limits)]"
  have d: "distinct (map (seq_of demo_txid) ?cs)"
    by (simp add: seq_of_def demo_txid_def)
  have ok: "\<forall>c \<in> set ?cs. 0 \<le> seq_of demo_txid c \<and> MaxMessageCount (snd (snd c)) \<noteq> 0"
    by (simp add: seq_of_def demo_txid_def demo_limits_def)
  have srt: "map (\<lambda>c. Some (fst c)) (sort_key (seq_of demo_txid) ?cs)
             = [Some (''a'', 30), Some (''b'', 30), Some (''d'', 30)]"
    by (simp add: seq_of_def demo_txid_def)
  from Schedule_completeness [OF d ok, of demo_size] show ?thesis
    unfolding srt .
qed

end
